theory Spec2Isabelle
  imports Complex_Main
begin

section \<open>The Hi-Lo game of \<^verbatim>\<open>Python/hilo.py\<close>\<close>

text \<open>
  The class \<^verbatim>\<open>HiLo\<close> keeps three integer fields. Python integers are unbounded, so they
  are \<^typ>\<open>int\<close>. The field \<^verbatim>\<open>size\<close> is called \<open>size_hilo\<close> here, since \<open>size\<close> is a
  constant of HOL.
\<close>

record hilo =
  low :: int
  high :: int
  size_hilo :: int

text \<open>
  The exceptions the program can raise. Every \<^verbatim>\<open>raise\<close> of the class is a
  \<^verbatim>\<open>ValueError\<close> with a message; a failed \<^verbatim>\<open>assert\<close> is an \<^verbatim>\<open>AssertionError\<close>; float
  division by zero is a \<^verbatim>\<open>ZeroDivisionError\<close>.
\<close>

datatype error = ValueError string | AssertionError | ZeroDivisionError

text \<open>\<^verbatim>\<open>range(start, stop)\<close>, the value \<^verbatim>\<open>choices\<close> returns: the integers from
  \<open>start\<close> up to, and not including, \<open>stop\<close>.\<close>

datatype py_range = Range int int

fun in_range :: "int \<Rightarrow> py_range \<Rightarrow> bool" where
  "in_range x (Range start stop) = (start \<le> x \<and> x < stop)"

fun elems :: "py_range \<Rightarrow> int list" where
  "elems (Range start stop) = [start..stop - 1]"

subsection \<open>The class\<close>

text \<open>\<^verbatim>\<open>__init__\<close>: the three checks in the order of the source, then the three fields.\<close>

definition HiLo_init :: "int \<Rightarrow> int \<Rightarrow> error + hilo" where
  "HiLo_init minimum maximum =
     (if minimum > maximum then Inl (ValueError ''range cannot be empty'')
      else if minimum < 0 then Inl (ValueError ''min cannot be negative'')
      else if maximum \<ge> 1000000000 then Inl (ValueError ''max must be less than 1000000000'')
      else Inr \<lparr>low = minimum, high = maximum, size_hilo = maximum - minimum + 1\<rparr>)"

text \<open>The class method \<^verbatim>\<open>upto\<close> (\<open>upto\<close> is a constant of HOL).\<close>

definition upto_hilo :: "int \<Rightarrow> error + hilo" where
  "upto_hilo maximum = HiLo_init 1 maximum"

text \<open>\<^verbatim>\<open>_mid_point\<close>: Python's \<^verbatim>\<open>//\<close> is floor division, as \<open>div\<close> on \<^typ>\<open>int\<close> is.\<close>

definition mid_point :: "hilo \<Rightarrow> int" where
  "mid_point h = (low h + high h) div 2"

definition solved :: "hilo \<Rightarrow> bool" where
  "solved h = (low h = high h)"

text \<open>\<^verbatim>\<open>choices\<close> assigns no field, so it is a function of the state alone.\<close>

definition choices :: "hilo \<Rightarrow> error + py_range" where
  "choices h =
     (if solved h then Inl (ValueError ''problem has been solved already'')
      else if \<not> low h \<le> mid_point h then Inl AssertionError
      else Inr (Range (low h) (mid_point h + 1)))"

text \<open>
  \<^verbatim>\<open>yes\<close> and \<^verbatim>\<open>no\<close> assign a field and then assert, so an exception can leave a changed
  object behind: both return what the call did (an exception or \<^verbatim>\<open>None\<close>) together
  with the object afterwards.
\<close>

definition yes :: "hilo \<Rightarrow> (error + unit) \<times> hilo" where
  "yes h =
     (if solved h then (Inl (ValueError ''problem has been solved already''), h)
      else let h' = h\<lparr>high := mid_point h\<rparr>
           in if \<not> low h' \<le> high h' then (Inl AssertionError, h') else (Inr (), h'))"

definition no :: "hilo \<Rightarrow> (error + unit) \<times> hilo" where
  "no h =
     (if solved h then (Inl (ValueError ''problem has been solved already''), h)
      else let h' = h\<lparr>low := mid_point h + 1\<rparr>
           in if \<not> low h' \<le> high h' then (Inl AssertionError, h') else (Inr (), h'))"

text \<open>
  \<^verbatim>\<open>math.log\<close> and float division, with the exceptions Python raises:
  \<^verbatim>\<open>math.log\<close> raises exactly on an argument that is not positive, and \<^verbatim>\<open>/\<close> exactly on
  a divisor that is zero. The value returned stands for the double Python computes: it
  is the exact real number, rounding is not modelled, and nothing below depends on it
  beyond which of the two branches (an exception or a value) is taken.
\<close>

definition py_log :: "int \<Rightarrow> error + real" where
  "py_log x = (if x \<le> 0 then Inl (ValueError ''math domain error'') else Inr (ln (real_of_int x)))"

definition py_truediv :: "real \<Rightarrow> real \<Rightarrow> error + real" where
  "py_truediv a b = (if b = 0 then Inl ZeroDivisionError else Inr (a / b))"

text \<open>\<^verbatim>\<open>progress\<close>: the conditional expression looks at \<^verbatim>\<open>solved()\<close> first; the
  logarithms and the quotient are computed in the other branch only, left to right.\<close>

definition progress :: "hilo \<Rightarrow> error + real" where
  "progress h =
     (if solved h then Inr 1
      else (case py_log (high h - low h + 1) of
              Inl e \<Rightarrow> Inl e
            | Inr a \<Rightarrow>
               (case py_log (size_hilo h) of
                  Inl e \<Rightarrow> Inl e
                | Inr b \<Rightarrow>
                   (case py_truediv a b of
                      Inl e \<Rightarrow> Inl e
                    | Inr q \<Rightarrow> Inr (1 - q)))))"

definition secret :: "hilo \<Rightarrow> error + int" where
  "secret h =
     (if \<not> solved h then Inl (ValueError ''problem not solved yet'')
      else if \<not> low h = high h then Inl AssertionError
      else Inr (low h))"

subsection \<open>Reading an answer\<close>

text \<open>
  \<^verbatim>\<open>str.strip()\<close> removes the leading and the trailing whitespace. A \<^typ>\<open>char\<close> is read
  as the code point of the same number (0 to 255); \<open>isspace\<close> lists the code points
  of that range for which Python's \<^verbatim>\<open>str.isspace\<close> is true.
\<close>

definition isspace :: "char \<Rightarrow> bool" where
  "isspace c = (of_char c \<in> {9, 10, 11, 12, 13, 28, 29, 30, 31, 32, 133, 160 :: nat})"

definition strip :: "string \<Rightarrow> string" where
  "strip s = rev (dropWhile isspace (rev (dropWhile isspace s)))"

text \<open>The sets \<^verbatim>\<open>_yes\<close> and \<^verbatim>\<open>_no\<close> (an Isabelle name cannot start with an underscore).\<close>

definition yes_set :: "string set" where
  "yes_set = {''y'', ''Y'', ''yes'', ''Yes'', ''YES''}"

definition no_set :: "string set" where
  "no_set = {''n'', ''N'', ''no'', ''No'', ''NO''}"

text \<open>\<^verbatim>\<open>_yes_no\<close>: \<^verbatim>\<open>Optional[bool]\<close> is \<^typ>\<open>bool option\<close>.\<close>

definition yes_no :: "string \<Rightarrow> bool option" where
  "yes_no line =
     (let ans = strip line
      in if ans \<in> yes_set then Some True else if ans \<in> no_set then Some False else None)"

subsection \<open>Driving the game\<close>

text \<open>
  The statement \<^verbatim>\<open>hilo.yes() if ans else hilo.no()\<close> of \<^verbatim>\<open>_play\<close>, for a list of
  answers: an exception ends the run, as it ends \<^verbatim>\<open>_play\<close>.
\<close>

fun answers :: "bool list \<Rightarrow> hilo \<Rightarrow> (error + unit) \<times> hilo" where
  "answers [] h = (Inr (), h)"
| "answers (ans # rest) h =
     (case (if ans then yes h else no h) of
        (Inl e, h') \<Rightarrow> (Inl e, h')
      | (Inr u, h') \<Rightarrow> answers rest h')"

text \<open>
  The loop of \<^verbatim>\<open>_play\<close> with the user replaced by somebody who has the number \<open>t\<close> in
  mind and answers truthfully whether \<open>t\<close> is in the range asked about. Printing is left
  out, and with it the call of \<^verbatim>\<open>progress\<close>, whose value is only printed; the result is
  the number \<^verbatim>\<open>_play\<close> prints at the end, read from \<^verbatim>\<open>secret\<close>.
\<close>

function play :: "int \<Rightarrow> hilo \<Rightarrow> (error + int) \<times> hilo" where
  "play t h =
     (if \<not> solved h then
        (case choices h of
           Inl e \<Rightarrow> (Inl e, h)
         | Inr c \<Rightarrow>
            (case (if in_range t c then yes h else no h) of
               (Inl e, h') \<Rightarrow> (Inl e, h')
             | (Inr u, h') \<Rightarrow> play t h'))
      else (secret h, h))"
  by pat_completeness auto
termination
  apply (relation "measure (\<lambda>(t, h). nat (high h - low h))")
   apply simp
  apply (auto simp: choices_def solved_def mid_point_def yes_def no_def Let_def split: if_splits)
  done


section \<open>Basic facts\<close>

lemma HiLo_init_Inr:
  "HiLo_init mn mx = Inr h \<longleftrightarrow>
     mn \<le> mx \<and> 0 \<le> mn \<and> mx < 1000000000 \<and>
     h = \<lparr>low = mn, high = mx, size_hilo = mx - mn + 1\<rparr>"
  by (auto simp: HiLo_init_def)

lemma mid_point_bounds:
  "low h < high h \<Longrightarrow> low h \<le> mid_point h \<and> mid_point h < high h"
  by (simp add: mid_point_def) linarith

lemma yes_unsolved:
  "low h < high h \<Longrightarrow> yes h = (Inr (), h\<lparr>high := mid_point h\<rparr>)"
  using mid_point_bounds [of h] by (simp add: yes_def solved_def Let_def)

lemma no_unsolved:
  "low h < high h \<Longrightarrow> no h = (Inr (), h\<lparr>low := mid_point h + 1\<rparr>)"
  using mid_point_bounds [of h] by (simp add: no_def solved_def Let_def)

lemma yes_solved:
  "solved h \<Longrightarrow> yes h = (Inl (ValueError ''problem has been solved already''), h)"
  by (simp add: yes_def)

lemma no_solved:
  "solved h \<Longrightarrow> no h = (Inl (ValueError ''problem has been solved already''), h)"
  by (simp add: no_def)

text \<open>One call of \<open>yes\<close> or \<open>no\<close> on a state with \<open>low \<le> high\<close>: whatever the call
  returns, the bounds stay ordered, inside the old ones, and the size field is kept.\<close>

lemma step_keeps_order:
  assumes "low h \<le> high h" and "(if ans then yes h else no h) = (r, h')"
  shows "low h \<le> low h' \<and> low h' \<le> high h' \<and> high h' \<le> high h \<and> size_hilo h' = size_hilo h"
proof (cases "low h = high h")
  case True
  then have "solved h" by (simp add: solved_def)
  with assms show ?thesis
    by (auto simp: yes_solved no_solved split: if_splits)
next
  case False
  with assms have lt: "low h < high h" by simp
  from mid_point_bounds [OF lt] assms(2) show ?thesis
    by (auto simp: yes_unsolved [OF lt] no_unsolved [OF lt] split: if_splits)
qed

lemma answers_keep_order:
  "low h \<le> high h \<Longrightarrow> answers as h = (r, h') \<Longrightarrow>
     low h \<le> low h' \<and> low h' \<le> high h' \<and> high h' \<le> high h \<and> size_hilo h' = size_hilo h"
proof (induction as arbitrary: h)
  case Nil
  then show ?case by simp
next
  case (Cons ans rest)
  obtain r1 h1 where step: "(if ans then yes h else no h) = (r1, h1)"
    by (cases "if ans then yes h else no h") auto
  note s = step_keeps_order [OF Cons.prems(1) step]
  show ?case
  proof (cases r1)
    case (Inl e)
    with step Cons.prems(2) have "h' = h1" by (auto split: if_splits)
    with s show ?thesis by simp
  next
    case (Inr u)
    with step Cons.prems(2) have "answers rest h1 = (r, h')" by (auto split: if_splits)
    from Cons.IH [OF _ this] s show ?thesis by simp
  qed
qed

text \<open>What holds of every state a validly constructed object can be in.\<close>

lemma reachable_facts:
  assumes "HiLo_init mn mx = Inr h0" and "answers as h0 = (r, h)"
  shows "mn \<le> low h" and "low h \<le> high h" and "high h \<le> mx"
    and "size_hilo h = mx - mn + 1" and "0 \<le> mn" and "mx < 1000000000"
  using assms(1) answers_keep_order [OF _ assms(2)]
  by (auto simp: HiLo_init_Inr)


section \<open>Construction\<close>

text \<open>
  Claim C6. The constructor succeeds exactly for \<open>minimum \<le> maximum\<close>, \<open>0 \<le> minimum\<close> and
  \<open>maximum < 1000000000\<close>. For every other input it raises one of the three
  \<^verbatim>\<open>ValueError\<close>s of \<^verbatim>\<open>__init__\<close> (the error the specification calls
  \<^verbatim>\<open>InvalidRangeError\<close>). The object it builds is solved if and only if
  \<open>minimum = maximum\<close>.
\<close>

theorem HiLo_init_valid_iff:
  "((\<exists>h. HiLo_init mn mx = Inr h) \<longleftrightarrow> mn \<le> mx \<and> 0 \<le> mn \<and> mx < 1000000000) \<and>
   (\<not> (mn \<le> mx \<and> 0 \<le> mn \<and> mx < 1000000000) \<longrightarrow>
      HiLo_init mn mx = Inl (ValueError ''range cannot be empty'') \<or>
      HiLo_init mn mx = Inl (ValueError ''min cannot be negative'') \<or>
      HiLo_init mn mx = Inl (ValueError ''max must be less than 1000000000'')) \<and>
   (\<forall>h. HiLo_init mn mx = Inr h \<longrightarrow> (solved h \<longleftrightarrow> mn = mx))"
proof (intro conjI allI impI)
  show "(\<exists>h. HiLo_init mn mx = Inr h) \<longleftrightarrow> mn \<le> mx \<and> 0 \<le> mn \<and> mx < 1000000000"
    by (simp add: HiLo_init_Inr)
next
  assume "\<not> (mn \<le> mx \<and> 0 \<le> mn \<and> mx < 1000000000)"
  then show "HiLo_init mn mx = Inl (ValueError ''range cannot be empty'') \<or>
      HiLo_init mn mx = Inl (ValueError ''min cannot be negative'') \<or>
      HiLo_init mn mx = Inl (ValueError ''max must be less than 1000000000'')"
    by (cases "mx < mn"; cases "mn < 0"; cases "1000000000 \<le> mx")
      (simp_all add: HiLo_init_def)
next
  fix h
  assume "HiLo_init mn mx = Inr h"
  then have "low h = mn" and "high h = mx"
    by (simp_all add: HiLo_init_Inr)
  then show "solved h \<longleftrightarrow> mn = mx"
    by (simp add: solved_def)
qed

theorem HiLo_init_valid_iff_witness:
  "HiLo_init 1 10 = Inr \<lparr>low = 1, high = 10, size_hilo = 10\<rparr> \<and>
   \<not> solved \<lparr>low = 1, high = 10, size_hilo = 10\<rparr> \<and>
   HiLo_init 5 5 = Inr \<lparr>low = 5, high = 5, size_hilo = 1\<rparr> \<and>
   solved \<lparr>low = 5, high = 5, size_hilo = 1\<rparr> \<and>
   HiLo_init 5 3 = Inl (ValueError ''range cannot be empty'') \<and>
   HiLo_init (- 1) 3 = Inl (ValueError ''min cannot be negative'') \<and>
   HiLo_init 0 1000000000 = Inl (ValueError ''max must be less than 1000000000'')"
  using HiLo_init_valid_iff [of 1 10] HiLo_init_valid_iff [of 5 5]
    HiLo_init_valid_iff [of 5 3] HiLo_init_valid_iff [of "- 1" 3]
    HiLo_init_valid_iff [of 0 1000000000]
  by (simp add: HiLo_init_def)

section \<open>The question\<close>

text \<open>
  Claim C7. In every unsolved state of a validly constructed object, \<^verbatim>\<open>choices\<close> returns
  the range from \<open>low\<close> to the midpoint, both included, where the midpoint is
  \<open>(low + high) / 2\<close> rounded down; the range is not empty, and
  \<open>low \<le> midpoint \<le> high\<close>.
\<close>

theorem choices_unsolved:
  assumes "HiLo_init mn mx = Inr h0" and "answers as h0 = (r, h)" and "\<not> solved h"
  shows "choices h = Inr (Range (low h) (mid_point h + 1)) \<and>
         elems (Range (low h) (mid_point h + 1)) = [low h..mid_point h] \<and>
         [low h..mid_point h] \<noteq> [] \<and>
         mid_point h = \<lfloor>real_of_int (low h + high h) / 2\<rfloor> \<and>
         low h \<le> mid_point h \<and> mid_point h \<le> high h"
proof -
  from reachable_facts(2) [OF assms(1,2)] assms(3) have lt: "low h < high h"
    by (simp add: solved_def)
  note m = mid_point_bounds [OF lt]
  have "choices h = Inr (Range (low h) (mid_point h + 1))"
    using m assms(3) by (simp add: choices_def)
  moreover have "[low h..mid_point h] \<noteq> []"
    using m by simp
  moreover have "mid_point h = \<lfloor>real_of_int (low h + high h) / 2\<rfloor>"
    unfolding mid_point_def using floor_divide_of_int_eq [of "low h + high h" 2, where ?'a = real]
    by simp
  ultimately show ?thesis
    using m by simp
qed

theorem choices_unsolved_witness:
  "choices \<lparr>low = 6, high = 10, size_hilo = 10\<rparr> = Inr (Range 6 9) \<and>
   elems (Range 6 9) = [6..8] \<and>
   mid_point \<lparr>low = 6, high = 10, size_hilo = 10\<rparr> = 8"
proof -
  have i: "HiLo_init 1 10 = Inr \<lparr>low = 1, high = 10, size_hilo = 10\<rparr>"
    by (simp add: HiLo_init_def)
  have a: "answers [False] \<lparr>low = 1, high = 10, size_hilo = 10\<rparr>
             = (Inr (), \<lparr>low = 6, high = 10, size_hilo = 10\<rparr>)"
    by (simp add: no_def solved_def mid_point_def Let_def)
  have u: "\<not> solved \<lparr>low = 6, high = 10, size_hilo = 10\<rparr>"
    by (simp add: solved_def)
  have m: "mid_point \<lparr>low = 6, high = 10, size_hilo = 10\<rparr> = 8"
    by (simp add: mid_point_def)
  from choices_unsolved [OF i a u] show ?thesis
    unfolding m by simp
qed

section \<open>The invariant\<close>

text \<open>
  Claim C3. \<open>low \<le> high\<close> holds in every state reachable from a valid construction: in
  the state built by the constructor (the empty list of answers) and after any calls of
  \<^verbatim>\<open>yes\<close> and \<^verbatim>\<open>no\<close>. A state is solved exactly when \<open>low = high\<close>. On an unsolved
  reachable state \<^verbatim>\<open>yes\<close> succeeds and sets \<open>high\<close> to the midpoint, \<^verbatim>\<open>no\<close> succeeds and
  sets \<open>low\<close> to the midpoint plus one, and the assertion \<open>low \<le> high\<close> that follows each
  assignment holds.
\<close>

theorem low_le_high_invariant:
  assumes "HiLo_init mn mx = Inr h0" and "answers as h0 = (r, h)"
  shows "low h0 \<le> high h0 \<and> low h \<le> high h \<and> (solved h \<longleftrightarrow> low h = high h) \<and>
         (\<not> solved h \<longrightarrow>
            yes h = (Inr (), h\<lparr>high := mid_point h\<rparr>) \<and> low h \<le> mid_point h \<and>
            no h = (Inr (), h\<lparr>low := mid_point h + 1\<rparr>) \<and> mid_point h + 1 \<le> high h)"
proof -
  have le: "low h \<le> high h"
    by (rule reachable_facts(2) [OF assms])
  have le0: "low h0 \<le> high h0"
    using assms(1) by (simp add: HiLo_init_Inr)
  have "yes h = (Inr (), h\<lparr>high := mid_point h\<rparr>) \<and> low h \<le> mid_point h \<and>
        no h = (Inr (), h\<lparr>low := mid_point h + 1\<rparr>) \<and> mid_point h + 1 \<le> high h"
    if "\<not> solved h"
  proof -
    from that le have lt: "low h < high h" by (simp add: solved_def)
    from mid_point_bounds [OF lt] yes_unsolved [OF lt] no_unsolved [OF lt]
    show ?thesis by simp
  qed
  with le le0 show ?thesis
    by (simp add: solved_def)
qed

theorem low_le_high_invariant_witness:
  "yes \<lparr>low = 6, high = 10, size_hilo = 10\<rparr> = (Inr (), \<lparr>low = 6, high = 8, size_hilo = 10\<rparr>) \<and>
   no \<lparr>low = 6, high = 10, size_hilo = 10\<rparr> = (Inr (), \<lparr>low = 9, high = 10, size_hilo = 10\<rparr>)"
proof -
  have i: "HiLo_init 1 10 = Inr \<lparr>low = 1, high = 10, size_hilo = 10\<rparr>"
    by (simp add: HiLo_init_def)
  have a: "answers [False] \<lparr>low = 1, high = 10, size_hilo = 10\<rparr>
             = (Inr (), \<lparr>low = 6, high = 10, size_hilo = 10\<rparr>)"
    by (simp add: no_def solved_def mid_point_def Let_def)
  from low_le_high_invariant [OF i a] show ?thesis
    by (simp add: solved_def mid_point_def)
qed


section \<open>Calls in the wrong state\<close>

text \<open>
  Claim C5. \<^verbatim>\<open>choices\<close>, \<^verbatim>\<open>yes\<close> and \<^verbatim>\<open>no\<close> raise the
  \<^verbatim>\<open>ValueError\<close> "problem has been solved already" (the specification's
  \<^verbatim>\<open>AlreadySolvedError\<close>) if and only if the object is solved, and \<^verbatim>\<open>secret\<close> raises the
  \<^verbatim>\<open>ValueError\<close> "problem not solved yet" (\<^verbatim>\<open>NotSolvedError\<close>) if and only if it is not.
  This holds of every object, reachable or not. A call of \<^verbatim>\<open>yes\<close> or \<^verbatim>\<open>no\<close> that raises
  this error leaves the three fields as they were; \<^verbatim>\<open>choices\<close> and \<^verbatim>\<open>secret\<close> never
  assign a field. In a state reachable from a valid construction these are the only
  errors: the four methods succeed whenever they are called in the right state.
\<close>

theorem wrong_state_errors:
  "(choices h = Inl (ValueError ''problem has been solved already'') \<longleftrightarrow> solved h) \<and>
   (fst (yes h) = Inl (ValueError ''problem has been solved already'') \<longleftrightarrow> solved h) \<and>
   (fst (no h) = Inl (ValueError ''problem has been solved already'') \<longleftrightarrow> solved h) \<and>
   (secret h = Inl (ValueError ''problem not solved yet'') \<longleftrightarrow> \<not> solved h) \<and>
   (solved h \<longrightarrow> snd (yes h) = h \<and> snd (no h) = h) \<and>
   (\<forall>mn mx h0 as r. HiLo_init mn mx = Inr h0 \<and> answers as h0 = (r, h) \<longrightarrow>
      (if solved h then secret h = Inr (low h)
       else (\<exists>c. choices h = Inr c) \<and> fst (yes h) = Inr () \<and> fst (no h) = Inr ()))"
proof (intro conjI allI impI)
  show "choices h = Inl (ValueError ''problem has been solved already'') \<longleftrightarrow> solved h"
    by (simp add: choices_def)
  show "fst (yes h) = Inl (ValueError ''problem has been solved already'') \<longleftrightarrow> solved h"
    by (simp add: yes_def Let_def)
  show "fst (no h) = Inl (ValueError ''problem has been solved already'') \<longleftrightarrow> solved h"
    by (simp add: no_def Let_def)
  show "secret h = Inl (ValueError ''problem not solved yet'') \<longleftrightarrow> \<not> solved h"
    by (simp add: secret_def solved_def)
  show "snd (yes h) = h" if "solved h"
    using that by (simp add: yes_solved)
  show "snd (no h) = h" if "solved h"
    using that by (simp add: no_solved)
next
  fix mn mx h0 as r
  assume "HiLo_init mn mx = Inr h0 \<and> answers as h0 = (r, h)"
  then have le: "low h \<le> high h"
    using reachable_facts(2) by blast
  show "if solved h then secret h = Inr (low h)
        else (\<exists>c. choices h = Inr c) \<and> fst (yes h) = Inr () \<and> fst (no h) = Inr ()"
  proof (cases "solved h")
    case True
    then show ?thesis by (simp add: secret_def solved_def)
  next
    case False
    with le have lt: "low h < high h" by (simp add: solved_def)
    from mid_point_bounds [OF lt] False have "\<exists>c. choices h = Inr c"
      by (simp add: choices_def)
    with False show ?thesis
      by (simp add: yes_unsolved [OF lt] no_unsolved [OF lt])
  qed
qed

theorem wrong_state_errors_witness:
  "yes \<lparr>low = 7, high = 7, size_hilo = 10\<rparr>
     = (Inl (ValueError ''problem has been solved already''), \<lparr>low = 7, high = 7, size_hilo = 10\<rparr>) \<and>
   no \<lparr>low = 7, high = 7, size_hilo = 10\<rparr>
     = (Inl (ValueError ''problem has been solved already''), \<lparr>low = 7, high = 7, size_hilo = 10\<rparr>) \<and>
   choices \<lparr>low = 7, high = 7, size_hilo = 10\<rparr> = Inl (ValueError ''problem has been solved already'') \<and>
   secret \<lparr>low = 7, high = 7, size_hilo = 10\<rparr> = Inr 7 \<and>
   secret \<lparr>low = 1, high = 10, size_hilo = 10\<rparr> = Inl (ValueError ''problem not solved yet'') \<and>
   fst (yes \<lparr>low = 1, high = 10, size_hilo = 10\<rparr>) = Inr ()"
proof -
  have s: "solved \<lparr>low = 7, high = 7, size_hilo = 10\<rparr>"
    and u: "\<not> solved \<lparr>low = 1, high = 10, size_hilo = 10\<rparr>"
    by (simp_all add: solved_def)
  have i: "HiLo_init 1 10 = Inr \<lparr>low = 1, high = 10, size_hilo = 10\<rparr>"
    by (simp add: HiLo_init_def)
  have a: "answers [False, True, True, False] \<lparr>low = 1, high = 10, size_hilo = 10\<rparr>
             = (Inr (), \<lparr>low = 7, high = 7, size_hilo = 10\<rparr>)"
    by (simp add: yes_def no_def solved_def mid_point_def Let_def)
  have e: "answers [] \<lparr>low = 1, high = 10, size_hilo = 10\<rparr>
             = (Inr (), \<lparr>low = 1, high = 10, size_hilo = 10\<rparr>)"
    by simp
  from wrong_state_errors [of "\<lparr>low = 7, high = 7, size_hilo = 10\<rparr>"]
    wrong_state_errors [of "\<lparr>low = 1, high = 10, size_hilo = 10\<rparr>"] s u i a e
  show ?thesis
    by (metis prod.collapse select_convs(1))
qed

section \<open>The range shrinks\<close>

text \<open>
  Claim C10. In every state reachable from a valid construction, \<open>high - low + 1\<close> is at
  most \<open>size\<close>, and \<open>size\<close> is still the value the constructor gave it. Each successful
  call of \<^verbatim>\<open>yes\<close> or \<^verbatim>\<open>no\<close> makes \<open>high - low\<close> strictly smaller, and the
  range \<^verbatim>\<open>choices\<close> proposes in an unsolved state is a proper part of the candidates from
  \<open>low\<close> to \<open>high\<close>.
\<close>

theorem range_within_size:
  assumes "HiLo_init mn mx = Inr h0" and "answers as h0 = (r, h)"
  shows "high h - low h + 1 \<le> size_hilo h \<and> size_hilo h = size_hilo h0 \<and>
         size_hilo h = mx - mn + 1 \<and>
         (\<forall>h'. yes h = (Inr (), h') \<longrightarrow>
            high h' - low h' < high h - low h \<and> size_hilo h' = size_hilo h) \<and>
         (\<forall>h'. no h = (Inr (), h') \<longrightarrow>
            high h' - low h' < high h - low h \<and> size_hilo h' = size_hilo h) \<and>
         (\<not> solved h \<longrightarrow>
            (\<exists>c. choices h = Inr c \<and> set (elems c) \<subset> {low h..high h} \<and> set (elems c) \<noteq> {}))"
proof -
  note f = reachable_facts [OF assms]
  have s0: "size_hilo h0 = mx - mn + 1"
    using assms(1) by (auto simp: HiLo_init_Inr)
  have shrink: "high h' - low h' < high h - low h \<and> size_hilo h' = size_hilo h"
    if "yes h = (Inr (), h') \<or> no h = (Inr (), h')" for h'
  proof -
    from that have "\<not> solved h"
      by (auto simp: yes_solved no_solved)
    with f(2) have lt: "low h < high h" by (simp add: solved_def)
    from that mid_point_bounds [OF lt] show ?thesis
      by (auto simp: yes_unsolved [OF lt] no_unsolved [OF lt])
  qed
  have proper: "\<exists>c. choices h = Inr c \<and> set (elems c) \<subset> {low h..high h} \<and> set (elems c) \<noteq> {}"
    if "\<not> solved h"
  proof -
    from that f(2) have lt: "low h < high h" by (simp add: solved_def)
    note m = mid_point_bounds [OF lt]
    have c: "choices h = Inr (Range (low h) (mid_point h + 1))"
      using m that by (simp add: choices_def)
    have "{low h..mid_point h} \<subset> {low h..high h}"
      using m by (auto simp: psubset_eq)
    moreover have "{low h..mid_point h} \<noteq> {}"
      using m by simp
    ultimately show ?thesis
      using c by simp
  qed
  from f s0 shrink proper show ?thesis
    by simp
qed

theorem range_within_size_witness:
  "high \<lparr>low = 6, high = 10, size_hilo = 10\<rparr> - low \<lparr>low = 6, high = 10, size_hilo = 10\<rparr> + 1
     \<le> size_hilo \<lparr>low = 6, high = 10, size_hilo = 10\<rparr> \<and>
   yes \<lparr>low = 6, high = 10, size_hilo = 10\<rparr> = (Inr (), \<lparr>low = 6, high = 8, size_hilo = 10\<rparr>) \<and>
   high \<lparr>low = 6, high = 8, size_hilo = 10\<rparr> - low \<lparr>low = 6, high = 8, size_hilo = 10\<rparr>
     < high \<lparr>low = 6, high = 10, size_hilo = 10\<rparr> - low \<lparr>low = 6, high = 10, size_hilo = 10\<rparr>"
proof -
  have i: "HiLo_init 1 10 = Inr \<lparr>low = 1, high = 10, size_hilo = 10\<rparr>"
    by (simp add: HiLo_init_def)
  have a: "answers [False] \<lparr>low = 1, high = 10, size_hilo = 10\<rparr>
             = (Inr (), \<lparr>low = 6, high = 10, size_hilo = 10\<rparr>)"
    by (simp add: no_def solved_def mid_point_def Let_def)
  have y: "yes \<lparr>low = 6, high = 10, size_hilo = 10\<rparr> = (Inr (), \<lparr>low = 6, high = 8, size_hilo = 10\<rparr>)"
    by (simp add: yes_def solved_def mid_point_def Let_def)
  from range_within_size [OF i a] y show ?thesis
    by simp
qed

section \<open>A truthful player\<close>

lemma play_unfold:
  "play t h =
     (if \<not> solved h then
        (case choices h of
           Inl e \<Rightarrow> (Inl e, h)
         | Inr c \<Rightarrow>
            (case (if in_range t c then yes h else no h) of
               (Inl e, h') \<Rightarrow> (Inl e, h')
             | (Inr u, h') \<Rightarrow> play t h'))
      else (secret h, h))"
  by (rule play.simps)

text \<open>The truthful answer in a reachable unsolved state: since \<open>low \<le> t\<close>, the number is
  in the range asked about exactly when it is at most the midpoint.\<close>

lemma truthful_answer:
  assumes "low h < high h" and "low h \<le> t"
  shows "\<exists>c. choices h = Inr c \<and> (in_range t c \<longleftrightarrow> t \<le> mid_point h)"
  using assms mid_point_bounds [OF assms(1)]
  by (auto simp: choices_def solved_def)

lemma play_between:
  "low h \<le> t \<Longrightarrow> t \<le> high h \<Longrightarrow>
     \<exists>h'. play t h = (Inr t, h') \<and> solved h' \<and> low h' = t \<and> high h' = t
        \<and> size_hilo h' = size_hilo h"
proof (induction "nat (high h - low h)" arbitrary: h rule: less_induct)
  case less
  show ?case
  proof (cases "solved h")
    case True
    with less.prems have "low h = t" and "high h = t"
      by (simp_all add: solved_def)
    with True show ?thesis
      by (subst play_unfold) (simp add: secret_def solved_def)
  next
    case False
    with less.prems have lt: "low h < high h"
      by (simp add: solved_def)
    note m = mid_point_bounds [OF lt]
    from truthful_answer [OF lt less.prems(1)] obtain c
      where c: "choices h = Inr c" and ans: "in_range t c \<longleftrightarrow> t \<le> mid_point h"
      by blast
    show ?thesis
    proof (cases "t \<le> mid_point h")
      case True
      let ?h1 = "h\<lparr>high := mid_point h\<rparr>"
      have "nat (high ?h1 - low ?h1) < nat (high h - low h)"
        using m by simp
      from less.hyps [OF this] less.prems(1) True
      obtain h' where "play t ?h1 = (Inr t, h')" and "solved h'" and "low h' = t"
        and "high h' = t" and "size_hilo h' = size_hilo h"
        by auto
      moreover have "play t h = play t ?h1"
        using False c ans True by (subst play_unfold) (simp add: yes_unsolved [OF lt])
      ultimately show ?thesis by simp
    next
      case no: False
      let ?h1 = "h\<lparr>low := mid_point h + 1\<rparr>"
      have "nat (high ?h1 - low ?h1) < nat (high h - low h)"
        using m by simp
      from less.hyps [OF this] less.prems(2) no
      obtain h' where "play t ?h1 = (Inr t, h')" and "solved h'" and "low h' = t"
        and "high h' = t" and "size_hilo h' = size_hilo h"
        by auto
      moreover have "play t h = play t ?h1"
        using False c ans no by (subst play_unfold) (simp add: no_unsolved [OF lt])
      ultimately show ?thesis by simp
    qed
  qed
qed

text \<open>
  Claim C1. For every valid initial range and every number \<open>t\<close> in it, the game played
  with truthful answers (\<^verbatim>\<open>yes\<close> when \<open>t\<close> is in the range \<^verbatim>\<open>choices\<close> returns, \<^verbatim>\<open>no\<close>
  otherwise) until \<^verbatim>\<open>solved\<close> is true ends without an exception, in a solved state, and
  \<^verbatim>\<open>secret\<close> returns exactly \<open>t\<close>.
\<close>

theorem play_finds_secret:
  assumes "HiLo_init mn mx = Inr h0" and "mn \<le> t" and "t \<le> mx"
  shows "\<exists>h. play t h0 = (Inr t, h) \<and> solved h \<and> secret h = Inr t"
proof -
  from assms(1) have "low h0 = mn" and "high h0 = mx"
    by (simp_all add: HiLo_init_Inr)
  with assms(2,3) have "low h0 \<le> t" and "t \<le> high h0"
    by simp_all
  from play_between [OF this] obtain h
    where "play t h0 = (Inr t, h)" and "solved h" and "low h = t"
    by blast
  then show ?thesis
    by (auto simp: secret_def solved_def)
qed

theorem play_finds_secret_witness:
  "fst (play 7 \<lparr>low = 1, high = 10, size_hilo = 10\<rparr>) = Inr 7"
proof -
  have i: "HiLo_init 1 10 = Inr \<lparr>low = 1, high = 10, size_hilo = 10\<rparr>"
    by (simp add: HiLo_init_def)
  from play_finds_secret [OF i, of 7] show ?thesis
    by auto
qed

section \<open>The number of answers\<close>

text \<open>One answer on an unsolved state whose range has at most \<open>2 * p\<close> numbers: the call
  succeeds and the range left has at most \<open>p\<close> numbers.\<close>

lemma step_halves:
  assumes "low h < high h" and "high h - low h + 1 \<le> 2 * p"
    and "(if ans then yes h else no h) = (r, h')"
  shows "r = Inr () \<and> low h' \<le> high h' \<and> high h' - low h' + 1 \<le> p"
proof -
  note m = mid_point_bounds [OF assms(1)]
  have "mid_point h - low h + 1 \<le> p" and "high h - (mid_point h + 1) + 1 \<le> p"
    using assms(2) unfolding mid_point_def by linarith+
  with m assms(3) show ?thesis
    by (auto simp: yes_unsolved [OF assms(1)] no_unsolved [OF assms(1)] split: if_splits)
qed

lemma solved_within:
  "low h \<le> high h \<Longrightarrow> high h - low h + 1 \<le> 2 ^ k \<Longrightarrow> k \<le> length as \<Longrightarrow>
     \<exists>j h'. j \<le> k \<and> answers (take j as) h = (Inr (), h') \<and> solved h'"
proof (induction k arbitrary: h as)
  case 0
  then have "solved h" by (simp add: solved_def)
  then have "answers (take 0 as) h = (Inr (), h) \<and> solved h" by simp
  then show ?case by blast
next
  case (Suc k)
  show ?case
  proof (cases "solved h")
    case True
    then have "answers (take 0 as) h = (Inr (), h) \<and> solved h" by simp
    then show ?thesis by blast
  next
    case False
    with Suc.prems(1) have lt: "low h < high h" by (simp add: solved_def)
    from Suc.prems(3) obtain ans rest where as: "as = ans # rest"
      by (cases as) auto
    obtain r h1 where step: "(if ans then yes h else no h) = (r, h1)"
      by (cases "if ans then yes h else no h") auto
    from Suc.prems(2) have "high h - low h + 1 \<le> 2 * 2 ^ k" by simp
    from step_halves [OF lt this step]
    have r: "r = Inr ()" and le1: "low h1 \<le> high h1" and sz1: "high h1 - low h1 + 1 \<le> 2 ^ k"
      by simp_all
    from Suc.prems(3) as have "k \<le> length rest" by simp
    from Suc.IH [OF le1 sz1 this] obtain j h'
      where j: "j \<le> k" and run: "answers (take j rest) h1 = (Inr (), h')" and s: "solved h'"
      by blast
    have "answers (take (Suc j) as) h = (Inr (), h')"
      using as step r run by (auto split: if_splits)
    with j s show ?thesis
      by (metis Suc_le_mono)
  qed
qed

lemma successes_bounded:
  "low h \<le> high h \<Longrightarrow> high h - low h + 1 \<le> 2 ^ k \<Longrightarrow> answers as h = (Inr (), h') \<Longrightarrow>
     length as \<le> k"
proof (induction as arbitrary: h k)
  case Nil
  then show ?case by simp
next
  case (Cons ans rest)
  obtain r h1 where step: "(if ans then yes h else no h) = (r, h1)"
    by (cases "if ans then yes h else no h") auto
  have "\<not> solved h"
  proof
    assume "solved h"
    with step have "r = Inl (ValueError ''problem has been solved already'')"
      by (auto simp: yes_solved no_solved split: if_splits)
    with step Cons.prems(3) show False
      by (auto split: if_splits)
  qed
  with Cons.prems(1) have lt: "low h < high h" by (simp add: solved_def)
  with Cons.prems(2) have "k \<noteq> 0" by (cases k) auto
  then obtain k' where k: "k = Suc k'" by (cases k) auto
  with Cons.prems(2) have "high h - low h + 1 \<le> 2 * 2 ^ k'" by simp
  from step_halves [OF lt this step]
  have r: "r = Inr ()" and le1: "low h1 \<le> high h1" and sz1: "high h1 - low h1 + 1 \<le> 2 ^ k'"
    by simp_all
  from step r Cons.prems(3) have "answers rest h1 = (Inr (), h')"
    by (auto split: if_splits)
  from Cons.IH [OF le1 sz1 this] k show ?case by simp
qed

text \<open>\<open>ceil(log2(n))\<close> is enough bits: \<open>n \<le> 2 ^ ceil(log2(n))\<close>.\<close>

lemma le_two_power_ceiling_log:
  fixes n :: int
  assumes "1 \<le> n"
  shows "n \<le> 2 ^ nat \<lceil>log 2 (real_of_int n)\<rceil>"
proof -
  let ?c = "\<lceil>log 2 (real_of_int n)\<rceil>"
  have pos: "0 < real_of_int n" using assms by simp
  have "0 \<le> log 2 (real_of_int n)"
    using assms by simp
  then have c0: "0 \<le> ?c" by linarith
  have "real_of_int n = 2 powr (log 2 (real_of_int n))"
    using pos by simp
  also have "\<dots> \<le> 2 powr (real_of_int ?c)"
    by (rule powr_mono) simp_all
  also have "real_of_int ?c = real (nat ?c)"
    using c0 by simp
  also have "2 powr (real (nat ?c)) = 2 ^ nat ?c"
    by (simp add: powr_realpow)
  finally have "real_of_int n \<le> real_of_int (2 ^ nat ?c)"
    by simp
  then show ?thesis
    by (simp only: of_int_le_iff)
qed

text \<open>
  Claim C2. From a valid initial range of \<open>N\<close> numbers, whatever the answers are, the
  object is solved after at most \<open>ceil(log2(N))\<close> calls of \<^verbatim>\<open>yes\<close> and \<^verbatim>\<open>no\<close>: no run
  of successful calls is longer than that, and along any list of answers that long a
  solved state is met. Each successful call leaves at most half of the candidates,
  rounded up, and at least half of them, rounded down, so \<open>high - low\<close> strictly decreases.
\<close>

theorem solved_within_ceiling_log2:
  assumes "HiLo_init mn mx = Inr h0"
  shows "(\<forall>as h. answers as h0 = (Inr (), h) \<longrightarrow>
            length as \<le> nat \<lceil>log 2 (real_of_int (size_hilo h0))\<rceil>) \<and>
         (\<forall>as. nat \<lceil>log 2 (real_of_int (size_hilo h0))\<rceil> \<le> length as \<longrightarrow>
            (\<exists>j h. j \<le> nat \<lceil>log 2 (real_of_int (size_hilo h0))\<rceil> \<and>
                    answers (take j as) h0 = (Inr (), h) \<and> solved h)) \<and>
         (\<forall>as r h ans h'. answers as h0 = (r, h) \<and> (if ans then yes h else no h) = (Inr (), h') \<longrightarrow>
            high h' - low h' < high h - low h \<and>
            2 * (high h' - low h' + 1) \<le> (high h - low h + 1) + 1 \<and>
            (high h - low h + 1) - 1 \<le> 2 * (high h' - low h' + 1))"
proof -
  let ?K = "nat \<lceil>log 2 (real_of_int (size_hilo h0))\<rceil>"
  from assms have le0: "low h0 \<le> high h0" and sz: "size_hilo h0 = high h0 - low h0 + 1"
    by (auto simp: HiLo_init_Inr)
  then have "1 \<le> size_hilo h0" by simp
  from le_two_power_ceiling_log [OF this] sz have pow: "high h0 - low h0 + 1 \<le> 2 ^ ?K"
    by simp
  have a: "length as \<le> ?K" if "answers as h0 = (Inr (), h)" for as h
    using successes_bounded [OF le0 pow that] .
  have b: "\<exists>j h. j \<le> ?K \<and> answers (take j as) h0 = (Inr (), h) \<and> solved h"
    if "?K \<le> length as" for as
    using solved_within [OF le0 pow that] .
  have c: "high h' - low h' < high h - low h \<and>
           2 * (high h' - low h' + 1) \<le> (high h - low h + 1) + 1 \<and>
           (high h - low h + 1) - 1 \<le> 2 * (high h' - low h' + 1)"
    if run: "answers as h0 = (r, h)" and step: "(if ans then yes h else no h) = (Inr (), h')"
    for as r h ans h'
  proof -
    have le: "low h \<le> high h"
      by (rule reachable_facts(2) [OF assms run])
    have "\<not> solved h"
      using step by (auto simp: yes_solved no_solved split: if_splits)
    with le have lt: "low h < high h" by (simp add: solved_def)
    have "h' = h\<lparr>high := mid_point h\<rparr> \<or> h' = h\<lparr>low := mid_point h + 1\<rparr>"
      using step by (auto simp: yes_unsolved [OF lt] no_unsolved [OF lt] split: if_splits)
    then show ?thesis
      using lt unfolding mid_point_def by (elim disjE; simp) linarith+
  qed
  from a b c show ?thesis
    by blast
qed



theorem solved_within_ceiling_log2_witness:
  "(\<exists>j h. j \<le> 4 \<and>
      answers (take j [True, False, True, True]) \<lparr>low = 1, high = 10, size_hilo = 10\<rparr> = (Inr (), h) \<and>
      solved h) \<and>
   answers [True, False, True] \<lparr>low = 1, high = 10, size_hilo = 10\<rparr>
      = (Inr (), \<lparr>low = 4, high = 4, size_hilo = 10\<rparr>)"
proof -
  let ?h0 = "\<lparr>low = 1, high = 10, size_hilo = 10\<rparr>"
  have i: "HiLo_init 1 10 = Inr ?h0"
    by (simp add: HiLo_init_def)
  have "\<lceil>log (real 2) (real 10)\<rceil> = int 3 + 1"
    by (rule ceiling_log_nat_eq_if) simp_all
  then have k: "nat \<lceil>log 2 (real_of_int (size_hilo ?h0))\<rceil> = 4"
    by simp
  have run: "answers [True, False, True] ?h0 = (Inr (), \<lparr>low = 4, high = 4, size_hilo = 10\<rparr>)"
    by (simp add: yes_def no_def solved_def mid_point_def Let_def)
  from solved_within_ceiling_log2 [OF i, unfolded k]
  have "4 \<le> length [True, False, True, True] \<longrightarrow>
          (\<exists>j h. j \<le> 4 \<and> answers (take j [True, False, True, True]) ?h0 = (Inr (), h) \<and> solved h)"
    by blast
  with run show ?thesis
    by simp
qed

section \<open>Reading an answer\<close>

lemma strip_decompose:
  "\<exists>pre post. line = pre @ strip line @ post \<and> (\<forall>c\<in>set pre. isspace c) \<and> (\<forall>c\<in>set post. isspace c)"
proof -
  let ?d = "dropWhile isspace line"
  let ?post = "rev (takeWhile isspace (rev ?d))"
  have "strip line @ ?post = rev (takeWhile isspace (rev ?d) @ dropWhile isspace (rev ?d))"
    unfolding strip_def by (simp only: rev_append)
  also have "\<dots> = ?d"
    by (simp only: takeWhile_dropWhile_id rev_rev_ident)
  finally have d: "?d = strip line @ ?post"
    by (rule sym)
  have "line = takeWhile isspace line @ ?d"
    by simp
  with d have "line = takeWhile isspace line @ strip line @ ?post"
    by simp
  moreover have "\<forall>c\<in>set (takeWhile isspace line). isspace c"
    by (auto dest: set_takeWhileD)
  moreover have "\<forall>c\<in>set ?post. isspace c"
    by (auto dest: set_takeWhileD)
  ultimately show ?thesis
    by blast
qed

lemma strip_framed:
  assumes "tok \<noteq> []" and "\<not> isspace (hd tok)" and "\<not> isspace (last tok)"
    and "\<forall>c\<in>set pre. isspace c" and "\<forall>c\<in>set post. isspace c"
  shows "strip (pre @ tok @ post) = tok"
proof -
  have "dropWhile isspace (pre @ tok @ post) = dropWhile isspace (tok @ post)"
    by (rule dropWhile_append2) (use assms(4) in blast)
  also have "\<dots> = tok @ post"
    using assms(1,2) by (cases tok) simp_all
  finally have d: "dropWhile isspace (pre @ tok @ post) = tok @ post" .
  have "dropWhile isspace (rev post @ rev tok) = dropWhile isspace (rev tok)"
    by (rule dropWhile_append2) (use assms(5) in simp)
  also have "\<dots> = rev tok"
    using assms(1,3) by (cases tok rule: rev_cases) simp_all
  finally show ?thesis
    by (simp add: strip_def d)
qed

text \<open>The trimmed line is a given token, free of whitespace at both ends, exactly when
  the line is that token between two runs of whitespace.\<close>

lemma strip_eq_iff:
  assumes "tok \<noteq> []" and "\<not> isspace (hd tok)" and "\<not> isspace (last tok)"
  shows "strip line = tok \<longleftrightarrow>
           (\<exists>pre post. line = pre @ tok @ post \<and> (\<forall>c\<in>set pre. isspace c) \<and> (\<forall>c\<in>set post. isspace c))"
proof
  assume "strip line = tok"
  with strip_decompose [of line] show
    "\<exists>pre post. line = pre @ tok @ post \<and> (\<forall>c\<in>set pre. isspace c) \<and> (\<forall>c\<in>set post. isspace c)"
    by simp
next
  assume "\<exists>pre post. line = pre @ tok @ post \<and> (\<forall>c\<in>set pre. isspace c) \<and> (\<forall>c\<in>set post. isspace c)"
  then show "strip line = tok"
    using strip_framed [OF assms] by blast
qed

lemma strip_in_iff:
  assumes "\<forall>tok\<in>T. tok \<noteq> [] \<and> \<not> isspace (hd tok) \<and> \<not> isspace (last tok)"
  shows "strip line \<in> T \<longleftrightarrow>
           (\<exists>pre tok post. line = pre @ tok @ post \<and> (\<forall>c\<in>set pre. isspace c) \<and>
              (\<forall>c\<in>set post. isspace c) \<and> tok \<in> T)"
proof
  assume "strip line \<in> T"
  with strip_decompose [of line] show
    "\<exists>pre tok post. line = pre @ tok @ post \<and> (\<forall>c\<in>set pre. isspace c) \<and>
       (\<forall>c\<in>set post. isspace c) \<and> tok \<in> T"
    by blast
next
  assume "\<exists>pre tok post. line = pre @ tok @ post \<and> (\<forall>c\<in>set pre. isspace c) \<and>
       (\<forall>c\<in>set post. isspace c) \<and> tok \<in> T"
  then obtain pre tok post where line: "line = pre @ tok @ post"
    and ws: "\<forall>c\<in>set pre. isspace c" "\<forall>c\<in>set post. isspace c" and tok: "tok \<in> T"
    by blast
  from assms tok have "tok \<noteq> []" and "\<not> isspace (hd tok)" and "\<not> isspace (last tok)"
    by blast+
  from strip_framed [OF this ws] line tok show "strip line \<in> T"
    by simp
qed

lemma tokens_no_space:
  "\<forall>tok\<in>yes_set \<union> no_set. tok \<noteq> [] \<and> \<not> isspace (hd tok) \<and> \<not> isspace (last tok)"
  by (simp add: yes_set_def no_set_def isspace_def)

lemma yes_no_cases:
  "(yes_no line = Some True \<longleftrightarrow> strip line \<in> yes_set) \<and>
   (yes_no line = Some False \<longleftrightarrow> strip line \<in> no_set) \<and>
   (yes_no line = None \<longleftrightarrow> strip line \<notin> yes_set \<union> no_set)"
proof -
  have "yes_set \<inter> no_set = {}"
    by (simp add: yes_set_def no_set_def)
  then show ?thesis
    by (auto simp: yes_no_def Let_def)
qed

text \<open>
  Claim C8, as the specification states it, fails: the casing variants it names are not
  in the sets \<^verbatim>\<open>_yes\<close> and \<^verbatim>\<open>_no\<close>, so \<^verbatim>\<open>_yes_no\<close> returns \<^verbatim>\<open>None\<close> for them and the
  user is asked again.
\<close>

theorem yes_no_mixed_case_counterexample:
  "yes_no ''yEs'' = None \<and> yes_no ''YeS'' = None \<and> yes_no ''nO'' = None"
  by (simp add: yes_no_def yes_set_def no_set_def strip_def isspace_def)

text \<open>
  Claim C8, amended. \<^verbatim>\<open>_yes_no\<close> returns \<^verbatim>\<open>True\<close> exactly when the line, with the
  whitespace at both ends removed, is one of \<open>y\<close>, \<open>Y\<close>, \<open>yes\<close>, \<open>Yes\<close>, \<open>YES\<close>; it returns
  \<^verbatim>\<open>False\<close> exactly when the trimmed line is one of \<open>n\<close>, \<open>N\<close>, \<open>no\<close>, \<open>No\<close>, \<open>NO\<close>; and it
  returns \<^verbatim>\<open>None\<close> (the user is asked again) for every other line. Only these three
  casings of each word are accepted.
\<close>

theorem yes_no_accepts_exactly:
  "(yes_no line = Some True \<longleftrightarrow>
      (\<exists>pre tok post. line = pre @ tok @ post \<and> (\<forall>c\<in>set pre. isspace c) \<and>
         (\<forall>c\<in>set post. isspace c) \<and> tok \<in> {''y'', ''Y'', ''yes'', ''Yes'', ''YES''})) \<and>
   (yes_no line = Some False \<longleftrightarrow>
      (\<exists>pre tok post. line = pre @ tok @ post \<and> (\<forall>c\<in>set pre. isspace c) \<and>
         (\<forall>c\<in>set post. isspace c) \<and> tok \<in> {''n'', ''N'', ''no'', ''No'', ''NO''})) \<and>
   (yes_no line = None \<longleftrightarrow>
      strip line \<notin> {''y'', ''Y'', ''yes'', ''Yes'', ''YES''} \<and>
      strip line \<notin> {''n'', ''N'', ''no'', ''No'', ''NO''})"
proof -
  have y: "\<forall>tok\<in>yes_set. tok \<noteq> [] \<and> \<not> isspace (hd tok) \<and> \<not> isspace (last tok)"
    and n: "\<forall>tok\<in>no_set. tok \<noteq> [] \<and> \<not> isspace (hd tok) \<and> \<not> isspace (last tok)"
    using tokens_no_space by blast+
  note c = yes_no_cases [of line]
  have "yes_no line = Some True \<longleftrightarrow>
      (\<exists>pre tok post. line = pre @ tok @ post \<and> (\<forall>c\<in>set pre. isspace c) \<and>
         (\<forall>c\<in>set post. isspace c) \<and> tok \<in> yes_set)"
    using c strip_in_iff [OF y, of line] by simp
  moreover have "yes_no line = Some False \<longleftrightarrow>
      (\<exists>pre tok post. line = pre @ tok @ post \<and> (\<forall>c\<in>set pre. isspace c) \<and>
         (\<forall>c\<in>set post. isspace c) \<and> tok \<in> no_set)"
    using c strip_in_iff [OF n, of line] by simp
  moreover have "yes_no line = None \<longleftrightarrow> strip line \<notin> yes_set \<and> strip line \<notin> no_set"
    using c by simp
  ultimately show ?thesis
    unfolding yes_set_def no_set_def by (intro conjI)
qed

theorem yes_no_accepts_exactly_witness:
  "yes_no '' Yes  '' = Some True \<and> yes_no ''NO'' = Some False \<and> yes_no ''maybe'' = None"
proof (intro conjI)
  show "yes_no '' Yes  '' = Some True"
    apply (rule iffD2 [OF conjunct1 [OF yes_no_accepts_exactly]])
    apply (rule exI [of _ "'' ''"], rule exI [of _ "''Yes''"], rule exI [of _ "''  ''"])
    apply (simp add: isspace_def)
    done
  show "yes_no ''NO'' = Some False"
    apply (rule iffD2 [OF conjunct1 [OF conjunct2 [OF yes_no_accepts_exactly]]])
    apply (rule exI [of _ "[]"], rule exI [of _ "''NO''"], rule exI [of _ "[]"])
    apply simp
    done
  show "yes_no ''maybe'' = None"
    apply (rule iffD2 [OF conjunct2 [OF conjunct2 [OF yes_no_accepts_exactly]]])
    apply (simp add: strip_def isspace_def)
    done
qed

section \<open>Progress\<close>

text \<open>In an unsolved state whose range is within \<open>size\<close>, both logarithms are defined, the
  divisor is positive, and \<^verbatim>\<open>progress\<close> returns the formula's value.\<close>

lemma progress_unsolved:
  assumes "low h < high h" and "high h - low h + 1 \<le> size_hilo h"
  shows "py_log (high h - low h + 1) = Inr (ln (real_of_int (high h - low h + 1)))"
    and "py_log (size_hilo h) = Inr (ln (real_of_int (size_hilo h)))"
    and "0 < ln (real_of_int (size_hilo h))"
    and "py_truediv (ln (real_of_int (high h - low h + 1))) (ln (real_of_int (size_hilo h)))
           = Inr (ln (real_of_int (high h - low h + 1)) / ln (real_of_int (size_hilo h)))"
    and "progress h
           = Inr (1 - ln (real_of_int (high h - low h + 1)) / ln (real_of_int (size_hilo h)))"
proof -
  from assms have s: "2 \<le> size_hilo h" by simp
  show a: "py_log (high h - low h + 1) = Inr (ln (real_of_int (high h - low h + 1)))"
    using assms(1) by (simp add: py_log_def)
  show b: "py_log (size_hilo h) = Inr (ln (real_of_int (size_hilo h)))"
    using s by (simp add: py_log_def)
  from s have "1 < real_of_int (size_hilo h)" by simp
  then show pos: "0 < ln (real_of_int (size_hilo h))"
    by (rule ln_gt_zero)
  then show d: "py_truediv (ln (real_of_int (high h - low h + 1))) (ln (real_of_int (size_hilo h)))
           = Inr (ln (real_of_int (high h - low h + 1)) / ln (real_of_int (size_hilo h)))"
    by (simp add: py_truediv_def)
  from assms(1) have "\<not> solved h" by (simp add: solved_def)
  then show "progress h
           = Inr (1 - ln (real_of_int (high h - low h + 1)) / ln (real_of_int (size_hilo h)))"
    unfolding progress_def by (simp only: a b d if_False sum.case)
qed

lemma progress_solved: "solved h \<Longrightarrow> progress h = Inr 1"
  by (simp add: progress_def)

text \<open>
  Claim C9. \<^verbatim>\<open>progress\<close> never raises on a state reachable from a valid construction. On
  a solved state the conditional expression returns 1 and the quotient is not computed
  (so \<open>log(1) = 0\<close> is never a divisor when \<open>size = 1\<close>). On an unsolved state \<open>low < high\<close>
  forces \<open>size \<ge> 2\<close>: both arguments of the logarithm are at least 1, the divisor
  \<open>log(size)\<close> is not zero, and neither the logarithms nor the division fail.
\<close>

theorem progress_never_fails:
  assumes "HiLo_init mn mx = Inr h0" and "answers as h0 = (r, h)"
  shows "(\<exists>p. progress h = Inr p) \<and>
         (solved h \<longrightarrow> progress h = Inr 1) \<and>
         (\<not> solved h \<longrightarrow>
            low h < high h \<and> 2 \<le> size_hilo h \<and> 1 \<le> high h - low h + 1 \<and>
            py_log (high h - low h + 1) = Inr (ln (real_of_int (high h - low h + 1))) \<and>
            py_log (size_hilo h) = Inr (ln (real_of_int (size_hilo h))) \<and>
            ln (real_of_int (size_hilo h)) \<noteq> 0 \<and>
            py_truediv (ln (real_of_int (high h - low h + 1))) (ln (real_of_int (size_hilo h)))
              = Inr (ln (real_of_int (high h - low h + 1)) / ln (real_of_int (size_hilo h))))"
proof (cases "solved h")
  case True
  then show ?thesis by (simp add: progress_solved)
next
  case False
  note f = reachable_facts [OF assms]
  from False f(2) have lt: "low h < high h" by (simp add: solved_def)
  from f have sz: "high h - low h + 1 \<le> size_hilo h" by simp
  note p = progress_unsolved [OF lt sz]
  from lt sz have "2 \<le> size_hilo h" and "1 \<le> high h - low h + 1" by simp_all
  with False lt p show ?thesis by simp
qed

theorem progress_never_fails_witness:
  "progress \<lparr>low = 5, high = 5, size_hilo = 1\<rparr> = Inr 1 \<and>
   py_log (size_hilo \<lparr>low = 6, high = 10, size_hilo = 10\<rparr>) = Inr (ln 10) \<and>
   ln (10 :: real) \<noteq> 0"
proof -
  have i5: "HiLo_init 5 5 = Inr \<lparr>low = 5, high = 5, size_hilo = 1\<rparr>"
    by (simp add: HiLo_init_def)
  have e: "answers [] \<lparr>low = 5, high = 5, size_hilo = 1\<rparr> = (Inr (), \<lparr>low = 5, high = 5, size_hilo = 1\<rparr>)"
    by simp
  have s: "solved \<lparr>low = 5, high = 5, size_hilo = 1\<rparr>"
    by (simp add: solved_def)
  have i: "HiLo_init 1 10 = Inr \<lparr>low = 1, high = 10, size_hilo = 10\<rparr>"
    by (simp add: HiLo_init_def)
  have a: "answers [False] \<lparr>low = 1, high = 10, size_hilo = 10\<rparr>
             = (Inr (), \<lparr>low = 6, high = 10, size_hilo = 10\<rparr>)"
    by (simp add: no_def solved_def mid_point_def Let_def)
  have u: "\<not> solved \<lparr>low = 6, high = 10, size_hilo = 10\<rparr>"
    by (simp add: solved_def)
  from progress_never_fails [OF i5 e] s progress_never_fails [OF i a] u show ?thesis
    by simp
qed

end
